theory Spec2Isabelle
  imports Main "HOL-Library.Multiset"
begin

section \<open>The batch cloner of github-org-cloner (src/github\_org\_cloner/cloner.py)\<close>

text \<open>
  The module has two functions: \<open>clone_repository\<close>, which decides for one repository
  whether to skip, simulate or run \<open>git clone\<close>, and \<open>clone_all_repositories\<close>, which
  runs it over a list either in a \<open>for\<close> loop or through a thread pool and gathers the
  outcomes in a dict keyed by repository name.

  Everything the functions do besides returning a value is explicit here: the file
  system and the log of subprocess invocations are a \<open>world\<close> that is passed in and
  returned, an exception is the \<open>Inl\<close> side of a sum, and the behaviour of the \<open>git\<close>
  executable is a parameter.
\<close>

subsection \<open>Data\<close>

text \<open>The dataclass \<open>Repository\<close> of github\_client.py.\<close>

record Repository =
  name :: string
  clone_url :: string
  ssh_url :: string
  description :: "string option"

text \<open>
  A \<open>pathlib.Path\<close> is the list of its components below the root; \<open>p / c\<close> appends the
  component \<open>c\<close> and \<open>p.parent\<close> drops the last one. Organisation and repository names
  are taken to be single components, as GitHub names are.
\<close>

type_synonym path = "string list"

definition path_str :: "path \<Rightarrow> string" where
  "path_str p = (if p = [] then ''/'' else concat (map (\<lambda>c. ''/'' @ c) p))"

datatype node = File | Dir

type_synonym filesystem = "path \<rightharpoonup> node"

text \<open>
  The world: what exists on disk, and every \<open>subprocess.run\<close> made so far with its
  argument vector and its timeout in seconds.
\<close>

record world =
  files :: filesystem
  calls :: "(string list \<times> nat) list"

text \<open>
  The exceptions that occur. \<open>CloneError\<close> is the module's own class; all of them derive
  from \<open>Exception\<close>, so an \<open>except Exception\<close> clause catches each one.
\<close>

datatype exn =
    CloneError string
  | OSError string
  | ValueError string
  | UnboundLocalError string
  | OtherException string

text \<open>\<open>str(e)\<close>: the message the exception was built with.\<close>

fun str_exn :: "exn \<Rightarrow> string" where
  "str_exn (CloneError m) = m"
| "str_exn (OSError m) = m"
| "str_exn (ValueError m) = m"
| "str_exn (UnboundLocalError m) = m"
| "str_exn (OtherException m) = m"

text \<open>
  What \<open>subprocess.run(..., capture_output=True, text=True, timeout=t)\<close> can do: the
  process ends with a return code and the captured standard error, the timeout expires,
  the executable is not found, or something else is raised.
\<close>

datatype run_result =
    Completed int string
  | TimeoutExpired
  | FileNotFoundError
  | OtherError string

text \<open>
  The \<open>git\<close> executable, as the environment provides it: from the clone URL, the target
  path, the timeout and the file system, what the invocation does and the file system it
  leaves behind.
\<close>

type_synonym tool = "string \<Rightarrow> path \<Rightarrow> nat \<Rightarrow> filesystem \<Rightarrow> run_result \<times> filesystem"

text \<open>A \<open>CloneOutcome\<close>: \<open>(repo_name, success, error_message)\<close>.\<close>

type_synonym outcome = "string \<times> bool \<times> string option"

text \<open>
  The result dict \<open>dict[str, tuple[bool, Optional[str]]]\<close>, in insertion order. Assigning
  to a key that is present replaces its value in place, assigning to a new key appends.
\<close>

type_synonym results = "(string \<times> bool \<times> string option) list"

fun dict_set :: "results \<Rightarrow> string \<Rightarrow> bool \<times> string option \<Rightarrow> results" where
  "dict_set [] k v = [(k, v)]"
| "dict_set ((k', v') # kvs) k v =
     (if k' = k then (k, v) # kvs else (k', v') # dict_set kvs k v)"

definition dict_get :: "results \<Rightarrow> string \<Rightarrow> (bool \<times> string option) option" where
  "dict_get res k = map_of res k"

subsection \<open>The file system operations used\<close>

text \<open>\<open>Path.exists()\<close>: true of a file and of a directory.\<close>

definition path_exists :: "filesystem \<Rightarrow> path \<Rightarrow> bool" where
  "path_exists fs p = (fs p \<noteq> None)"

text \<open>
  \<open>Path.mkdir(parents=True, exist_ok=True)\<close>: every missing directory on the way to \<open>p\<close>
  and \<open>p\<close> itself are created; directories that exist are left alone; a file in the way
  raises an \<open>OSError\<close> (\<open>FileExistsError\<close> or \<open>NotADirectoryError\<close>). On a disk
  where every entry lies in a directory, a file in the way is met before anything is
  created, so a failing call leaves the file system as it was.
\<close>

definition ensure_dir :: "path \<Rightarrow> filesystem \<Rightarrow> exn + filesystem" where
  "ensure_dir p fs =
     (case fs p of
        None \<Rightarrow> Inr (fs(p \<mapsto> Dir))
      | Some Dir \<Rightarrow> Inr fs
      | Some File \<Rightarrow> Inl (OSError (''File exists: '' @ path_str p)))"

fun mkdir_steps :: "path list \<Rightarrow> filesystem \<Rightarrow> exn + filesystem" where
  "mkdir_steps [] fs = Inr fs"
| "mkdir_steps (p # ps) fs =
     (case ensure_dir p fs of
        Inl e \<Rightarrow> Inl e
      | Inr fs' \<Rightarrow> mkdir_steps ps fs')"

definition mkdir_parents :: "path \<Rightarrow> filesystem \<Rightarrow> exn + filesystem" where
  "mkdir_parents p fs = mkdir_steps (map (\<lambda>n. take n p) [1..<Suc (length p)]) fs"

subsection \<open>clone\_repository\<close>

definition target_path :: "path \<Rightarrow> string \<Rightarrow> Repository \<Rightarrow> path" where
  "target_path base_dir org_name repo = base_dir @ [org_name, name repo]"

text \<open>
  Lines 39 to 81. The existence test comes first, then the dry-run return, then the
  creation of the parent directory (outside the \<open>try\<close>, so its exception leaves the
  function), then \<open>subprocess.run\<close> with \<open>timeout=300\<close> and \<open>check=True\<close>: a non-zero
  return code is a \<open>CalledProcessError\<close>, handled together with \<open>TimeoutExpired\<close> and
  \<open>FileNotFoundError\<close>; any other exception leaves the function as it is.
\<close>

definition clone_repository ::
  "tool \<Rightarrow> Repository \<Rightarrow> string \<Rightarrow> path \<Rightarrow> bool \<Rightarrow> world \<Rightarrow> (exn + outcome) \<times> world" where
  "clone_repository git repo org_name base_dir dry_run w =
     (let target = target_path base_dir org_name repo in
      if path_exists (files w) target then
        (Inr (name repo, False, Some ''Already exists''), w)
      else if dry_run then
        (Inr (name repo, True, None), w)
      else
        (case mkdir_parents (butlast target) (files w) of
           Inl e \<Rightarrow> (Inl e, w)
         | Inr fs1 \<Rightarrow>
             (let argv = [''git'', ''clone'', clone_url repo, path_str target];
                  ran = git (clone_url repo) target 300 fs1;
                  w2 = \<lparr>files = snd ran, calls = calls w @ [(argv, 300)]\<rparr>
              in case fst ran of
                   Completed returncode stderr \<Rightarrow>
                     if returncode = 0 then (Inr (name repo, True, None), w2)
                     else (Inr (name repo, False,
                                Some (''Failed to clone '' @ name repo @ '': '' @ stderr)), w2)
                 | TimeoutExpired \<Rightarrow>
                     (Inr (name repo, False,
                           Some (''Clone timeout for '' @ name repo @ '' (exceeded 5 minutes)'')), w2)
                 | FileNotFoundError \<Rightarrow>
                     (Inl (CloneError
                       ''git command not found. Please ensure git is installed and in your PATH.''), w2)
                 | OtherError m \<Rightarrow> (Inl (OtherException m), w2))))"

subsection \<open>clone\_all\_repositories\<close>

text \<open>
  The sequential loop, lines 156 to 168. The local variable \<open>repo_name\<close> is bound by the
  tuple assignment of line 159 only when \<open>clone_repository\<close> returns, and it keeps its
  value from one iteration to the next. The handler of line 166 stores under
  \<open>results[repo_name]\<close>: reading the variable while it is unbound raises
  \<open>UnboundLocalError\<close> inside the handler, which ends the function.
\<close>

fun sequential_loop ::
  "tool \<Rightarrow> string \<Rightarrow> path \<Rightarrow> bool \<Rightarrow> Repository list \<Rightarrow> string option \<Rightarrow> results \<Rightarrow> world
     \<Rightarrow> (exn + results) \<times> world" where
  "sequential_loop git org_name base_dir dry_run [] repo_name res w = (Inr res, w)"
| "sequential_loop git org_name base_dir dry_run (repo # rest) repo_name res w =
     (case clone_repository git repo org_name base_dir dry_run w of
        (Inr (rn, success, error), w') \<Rightarrow>
          sequential_loop git org_name base_dir dry_run rest (Some rn)
            (dict_set res rn (success, error)) w'
      | (Inl e, w') \<Rightarrow>
          (case repo_name of
             None \<Rightarrow> (Inl (UnboundLocalError ''repo_name''), w')
           | Some rn \<Rightarrow>
               sequential_loop git org_name base_dir dry_run rest (Some rn)
                 (dict_set res rn (False, Some (str_exn e))) w'))"

text \<open>
  The thread pool, lines 126 to 151. The submitted calls of \<open>clone_repository\<close> run in
  worker threads, so their actions on the disk interleave. A call has three actions: the
  existence test with the dry-run return (lines 42 to 48), the creation of the parent
  directory (line 51), and \<open>subprocess.run\<close> with its classification (lines 55 to 81).
  A task records how far its call has come.
\<close>

datatype task =
    Submitted Repository
  | Checked Repository
  | Ready Repository
  | Done Repository "exn + outcome"

text \<open>Lines 55 to 81, on a disk where the parent directory has been made.\<close>

definition run_git ::
  "tool \<Rightarrow> Repository \<Rightarrow> string \<Rightarrow> path \<Rightarrow> world \<Rightarrow> (exn + outcome) \<times> world" where
  "run_git git repo org_name base_dir w =
     (let target = target_path base_dir org_name repo;
          argv = [''git'', ''clone'', clone_url repo, path_str target];
          ran = git (clone_url repo) target 300 (files w);
          w2 = \<lparr>files = snd ran, calls = calls w @ [(argv, 300)]\<rparr>
      in case fst ran of
           Completed returncode stderr \<Rightarrow>
             if returncode = 0 then (Inr (name repo, True, None), w2)
             else (Inr (name repo, False,
                        Some (''Failed to clone '' @ name repo @ '': '' @ stderr)), w2)
         | TimeoutExpired \<Rightarrow>
             (Inr (name repo, False,
                   Some (''Clone timeout for '' @ name repo @ '' (exceeded 5 minutes)'')), w2)
         | FileNotFoundError \<Rightarrow>
             (Inl (CloneError
               ''git command not found. Please ensure git is installed and in your PATH.''), w2)
         | OtherError m \<Rightarrow> (Inl (OtherException m), w2))"

text \<open>One action of one call.\<close>

fun step_task :: "tool \<Rightarrow> string \<Rightarrow> path \<Rightarrow> bool \<Rightarrow> task \<Rightarrow> world \<Rightarrow> task \<times> world" where
  "step_task git org_name base_dir dry_run (Submitted repo) w =
     (if path_exists (files w) (target_path base_dir org_name repo) then
        (Done repo (Inr (name repo, False, Some ''Already exists'')), w)
      else if dry_run then (Done repo (Inr (name repo, True, None)), w)
      else (Checked repo, w))"
| "step_task git org_name base_dir dry_run (Checked repo) w =
     (case mkdir_parents (butlast (target_path base_dir org_name repo)) (files w) of
        Inl e \<Rightarrow> (Done repo (Inl e), w)
      | Inr fs1 \<Rightarrow> (Ready repo, w\<lparr>files := fs1\<rparr>))"
| "step_task git org_name base_dir dry_run (Ready repo) w =
     (case run_git git repo org_name base_dir w of (r, w') \<Rightarrow> (Done repo r, w'))"
| "step_task git org_name base_dir dry_run (Done repo r) w = (Done repo r, w)"

text \<open>
  The rest of a call, run without interruption; for a call that has not started this is
  \<open>clone_repository\<close>. The result is the future: the repository the call was submitted
  for and what the call returned or raised.
\<close>

type_synonym future = "Repository \<times> (exn + outcome)"

fun finish_task :: "tool \<Rightarrow> string \<Rightarrow> path \<Rightarrow> bool \<Rightarrow> task \<Rightarrow> world \<Rightarrow> future \<times> world" where
  "finish_task git org_name base_dir dry_run (Submitted repo) w =
     (case clone_repository git repo org_name base_dir dry_run w of (r, w') \<Rightarrow> ((repo, r), w'))"
| "finish_task git org_name base_dir dry_run (Checked repo) w =
     (case mkdir_parents (butlast (target_path base_dir org_name repo)) (files w) of
        Inl e \<Rightarrow> ((repo, Inl e), w)
      | Inr fs1 \<Rightarrow>
          (case run_git git repo org_name base_dir (w\<lparr>files := fs1\<rparr>) of
             (r, w') \<Rightarrow> ((repo, r), w')))"
| "finish_task git org_name base_dir dry_run (Ready repo) w =
     (case run_git git repo org_name base_dir w of (r, w') \<Rightarrow> ((repo, r), w'))"
| "finish_task git org_name base_dir dry_run (Done repo r) w = ((repo, r), w)"

text \<open>
  Which call acts next, and in which order \<open>as_completed\<close> hands the futures back, is
  decided by the pool and the operating system, not by this module: both are parameters.
  Each number of \<open>run_choices\<close> picks one of the submitted calls, which then does its next
  action (none when it is done already); when the numbers run out, the calls that are not
  done are finished one after the other in the order of submission. So the empty list
  runs the calls one at a time in that order, and every interleaving of the actions is
  given by some list.
\<close>

fun pool_steps ::
  "tool \<Rightarrow> string \<Rightarrow> path \<Rightarrow> bool \<Rightarrow> nat list \<Rightarrow> task list \<Rightarrow> world \<Rightarrow> task list \<times> world" where
  "pool_steps git org_name base_dir dry_run [] ts w = (ts, w)"
| "pool_steps git org_name base_dir dry_run (c # cs) ts w =
     (if ts = [] then (ts, w)
      else
        (case step_task git org_name base_dir dry_run (ts ! (c mod length ts)) w of
           (t', w') \<Rightarrow>
             pool_steps git org_name base_dir dry_run cs (ts[c mod length ts := t']) w'))"

fun drain ::
  "tool \<Rightarrow> string \<Rightarrow> path \<Rightarrow> bool \<Rightarrow> task list \<Rightarrow> world \<Rightarrow> future list \<times> world" where
  "drain git org_name base_dir dry_run [] w = ([], w)"
| "drain git org_name base_dir dry_run (t # ts) w =
     (case finish_task git org_name base_dir dry_run t w of
        (f, w') \<Rightarrow>
          (case drain git org_name base_dir dry_run ts w' of
             (fs, w'') \<Rightarrow> (f # fs, w'')))"

definition run_pool ::
  "tool \<Rightarrow> string \<Rightarrow> path \<Rightarrow> bool \<Rightarrow> nat list \<Rightarrow> Repository list \<Rightarrow> world
     \<Rightarrow> future list \<times> world" where
  "run_pool git org_name base_dir dry_run choices repos w =
     (case pool_steps git org_name base_dir dry_run choices (map Submitted repos) w of
        (ts, w') \<Rightarrow> drain git org_name base_dir dry_run ts w')"

text \<open>
  A list of numbers selects the order in which the futures are handed back: each number
  picks one of the futures still waiting, and when the numbers run out the rest follow
  in the order of submission. Every list selects an order and every order is selected
  by some list.
\<close>

fun pick_order :: "nat list \<Rightarrow> 'a list \<Rightarrow> 'a list" where
  "pick_order cs [] = []"
| "pick_order [] (x # xs) = x # xs"
| "pick_order (c # cs) (x # xs) =
     (let i = c mod length (x # xs)
      in (x # xs) ! i # pick_order cs (take i (x # xs) @ drop (Suc i) (x # xs)))"

record schedule =
  run_choices :: "nat list"
  yield_choices :: "nat list"

text \<open>
  The collecting loop, lines 141 to 151: \<open>future.result()\<close> gives the tuple or raises
  again what the call raised; the handler stores under \<open>results[repo.name]\<close>.
\<close>

fun collect :: "future list \<Rightarrow> results \<Rightarrow> results" where
  "collect [] res = res"
| "collect ((repo, Inr (rn, success, error)) # fs) res =
     collect fs (dict_set res rn (success, error))"
| "collect ((repo, Inl e) # fs) res =
     collect fs (dict_set res (name repo) (False, Some (str_exn e)))"

text \<open>
  Lines 108 to 176. \<open>ThreadPoolExecutor(max_workers=n)\<close> raises \<open>ValueError\<close> when \<open>n\<close> is
  given and not positive; the directory of the organisation is made before that, outside
  any \<open>try\<close>.
\<close>

definition clone_all_repositories ::
  "tool \<Rightarrow> schedule \<Rightarrow> Repository list \<Rightarrow> string \<Rightarrow> path \<Rightarrow> bool \<Rightarrow> int option \<Rightarrow> bool \<Rightarrow> world
     \<Rightarrow> (exn + results) \<times> world" where
  "clone_all_repositories git sched repos org_name base_dir parallel max_workers dry_run w =
     (if repos = [] then (Inr [], w)
      else
        (case (if dry_run then Inr (files w) else mkdir_parents (base_dir @ [org_name]) (files w)) of
           Inl e \<Rightarrow> (Inl e, w)
         | Inr fs1 \<Rightarrow>
             (let w1 = w\<lparr>files := fs1\<rparr> in
              if parallel then
                (case max_workers of
                   Some n \<Rightarrow>
                     if n \<le> 0 then (Inl (ValueError ''max_workers must be greater than 0''), w1)
                     else
                       (case run_pool git org_name base_dir dry_run
                               (run_choices sched) repos w1 of
                          (futures, w2) \<Rightarrow>
                            (Inr (collect (pick_order (yield_choices sched) futures) []), w2))
                 | None \<Rightarrow>
                     (case run_pool git org_name base_dir dry_run
                             (run_choices sched) repos w1 of
                        (futures, w2) \<Rightarrow>
                          (Inr (collect (pick_order (yield_choices sched) futures) []), w2)))
              else sequential_loop git org_name base_dir dry_run repos None [] w1)))"

subsection \<open>Concrete inputs\<close>

text \<open>
  Behaviours of the \<open>git\<close> executable: it clones and leaves the target directory
  behind, refusing a target that exists; it exits with status 1; it runs into the
  timeout, leaving a partial directory; it is not installed; it clones every repository
  but \<open>repoB\<close>, for which \<open>subprocess.run\<close> raises an exception of its own.
\<close>

definition git_ok :: tool where
  "git_ok url target t fs =
     (if fs target = None then (Completed 0 [], fs(target \<mapsto> Dir))
      else (Completed 128 ''fatal: destination path already exists'', fs))"

definition git_fails :: tool where
  "git_fails url target t fs = (Completed 1 ''fatal: not found'', fs)"

definition git_hangs :: tool where
  "git_hangs url target t fs = (TimeoutExpired, fs(target \<mapsto> Dir))"

definition git_missing :: tool where
  "git_missing url target t fs = (FileNotFoundError, fs)"

definition repoA :: Repository where
  "repoA = \<lparr>name = ''repoA'', clone_url = ''https://github.com/acme/repoA.git'',
            ssh_url = ''git@github.com:acme/repoA.git'', description = None\<rparr>"

definition repoB :: Repository where
  "repoB = \<lparr>name = ''repoB'', clone_url = ''https://github.com/acme/repoB.git'',
            ssh_url = ''git@github.com:acme/repoB.git'', description = Some ''second''\<rparr>"

definition git_breaks_on_B :: tool where
  "git_breaks_on_B url target t fs =
     (if url = clone_url repoB then (OtherError ''[Errno 24] Too many open files'', fs)
      else (Completed 0 [], fs(target \<mapsto> Dir)))"

definition empty_world :: world where
  "empty_world = \<lparr>files = Map.empty, calls = []\<rparr>"

text \<open>A disk on which \<open>/srv/acme/repoA\<close> is there already.\<close>

definition repoA_on_disk :: world where
  "repoA_on_disk = \<lparr>files = [[''srv''] \<mapsto> Dir, [''srv'', ''acme''] \<mapsto> Dir,
                             [''srv'', ''acme'', ''repoA''] \<mapsto> Dir], calls = []\<rparr>"

text \<open>
  Behaviours of the pool: the calls run one at a time and are handed back in the order
  of submission; they run one at a time and the second future is handed back first; the
  first two calls both do their existence test before either goes on.
\<close>

definition in_order :: schedule where
  "in_order = \<lparr>run_choices = [], yield_choices = []\<rparr>"

definition last_first :: schedule where
  "last_first = \<lparr>run_choices = [], yield_choices = [1]\<rparr>"

definition both_test_first :: schedule where
  "both_test_first = \<lparr>run_choices = [0, 1], yield_choices = []\<rparr>"

text \<open>The repository of a task, and whether the task is between two calls.\<close>

fun repo_of :: "task \<Rightarrow> Repository" where
  "repo_of (Submitted repo) = repo"
| "repo_of (Checked repo) = repo"
| "repo_of (Ready repo) = repo"
| "repo_of (Done repo r) = repo"

fun idle :: "task \<Rightarrow> bool" where
  "idle (Submitted repo) = True"
| "idle (Checked repo) = False"
| "idle (Ready repo) = False"
| "idle (Done repo r) = True"

subsection \<open>Predicates used in the statements\<close>

text \<open>One file system extends another: whatever was there is still there, as it was.\<close>

definition extends :: "filesystem \<Rightarrow> filesystem \<Rightarrow> bool" where
  "extends fs fs' = (\<forall>q k. fs q = Some k \<longrightarrow> fs' q = Some k)"

text \<open>
  What \<open>git clone\<close> is expected to do (section 6 of the specification): it removes and
  replaces nothing that exists, and when it exits with status 0 the target path is there.
\<close>

definition well_behaved :: "tool \<Rightarrow> bool" where
  "well_behaved git =
     (\<forall>url target t fs.
        extends fs (snd (git url target t fs))
        \<and> (\<forall>err. fst (git url target t fs) = Completed 0 err
               \<longrightarrow> snd (git url target t fs) target \<noteq> None))"

text \<open>Every directory on the way to \<open>p\<close>, and \<open>p\<close> itself, exists as a directory.\<close>

definition dirs_made :: "path \<Rightarrow> filesystem \<Rightarrow> bool" where
  "dirs_made p fs = (\<forall>n \<in> {1..length p}. fs (take n p) = Some Dir)"

text \<open>A task that is done with success has its target path on disk.\<close>

definition task_ok :: "path \<Rightarrow> string \<Rightarrow> filesystem \<Rightarrow> task \<Rightarrow> bool" where
  "task_ok base_dir org_name fs t =
     (\<forall>repo n d. t = Done repo (Inr (n, True, d)) \<longrightarrow> fs (base_dir @ [org_name, n]) \<noteq> None)"

text \<open>
  A task whose target is on disk and whose call has not started or has returned
  \<open>"Already exists"\<close>; a task whose outcome, if it has one, is keyed by the name of its
  repository.
\<close>

definition skips :: "path \<Rightarrow> string \<Rightarrow> filesystem \<Rightarrow> task \<Rightarrow> bool" where
  "skips base_dir org_name fs t =
     (fs (target_path base_dir org_name (repo_of t)) \<noteq> None
      \<and> (t = Submitted (repo_of t)
         \<or> t = Done (repo_of t) (Inr (name (repo_of t), False, Some ''Already exists''))))"

definition keyed :: "task \<Rightarrow> bool" where
  "keyed t = (\<forall>repo n s d. t = Done repo (Inr (n, s, d)) \<longrightarrow> n = name repo)"

text \<open>Every name recorded with success has its target path on disk.\<close>

definition recorded_ok :: "path \<Rightarrow> string \<Rightarrow> results \<Rightarrow> filesystem \<Rightarrow> bool" where
  "recorded_ok base_dir org_name res fs =
     (\<forall>n d. map_of res n = Some (True, d) \<longrightarrow> fs (base_dir @ [org_name, n]) \<noteq> None)"

section \<open>Properties\<close>

subsection \<open>The empty list\<close>

text \<open>
  C8. For the empty list of repositories \<open>clone_all_repositories\<close> returns the empty
  mapping, raises nothing and leaves the world as it was: no directory is created, not
  even the organisation's, whatever \<open>dry_run\<close> and the other arguments are.
\<close>

theorem clone_all_empty:
  "clone_all_repositories git sched [] org_name base_dir parallel max_workers dry_run w
     = (Inr [], w)"
  by (simp add: clone_all_repositories_def)

subsection \<open>A target that exists\<close>

text \<open>
  C5. When the target path \<open>base_dir/org_name/name\<close> exists, as a file or as a directory,
  \<open>clone_repository\<close> returns \<open>(name, False, "Already exists")\<close> and the world is the one
  it was given: nothing is created and \<open>git\<close> is not run, with \<open>dry_run\<close> set or not.
\<close>

theorem clone_repository_already_exists:
  assumes "files w (target_path base_dir org_name repo) = Some kind"
  shows "clone_repository git repo org_name base_dir dry_run w
           = (Inr (name repo, False, Some ''Already exists''), w)"
  using assms by (simp add: clone_repository_def path_exists_def)

theorem clone_repository_already_exists_witness:
  "files \<lparr>files = [[''srv'', ''acme'', ''repoA''] \<mapsto> File], calls = []\<rparr>
       (target_path [''srv''] ''acme'' repoA) = Some File
   \<and> clone_repository git_ok repoA ''acme'' [''srv''] False
         \<lparr>files = [[''srv'', ''acme'', ''repoA''] \<mapsto> File], calls = []\<rparr>
       = (Inr (''repoA'', False, Some ''Already exists''),
          \<lparr>files = [[''srv'', ''acme'', ''repoA''] \<mapsto> File], calls = []\<rparr>)"
  using clone_repository_already_exists
          [of "\<lparr>files = [[''srv'', ''acme'', ''repoA''] \<mapsto> File], calls = []\<rparr>"
              "[''srv'']" "''acme''" repoA File git_ok False]
  by (simp add: target_path_def repoA_def)

subsection \<open>Dry runs\<close>

lemma clone_repository_dry_run:
  "clone_repository git repo org_name base_dir True w =
     (if path_exists (files w) (target_path base_dir org_name repo)
      then (Inr (name repo, False, Some ''Already exists''), w)
      else (Inr (name repo, True, None), w))"
  by (simp add: clone_repository_def)

lemma sequential_loop_dry_run:
  "snd (sequential_loop git org_name base_dir True repos rn res w) = w"
  by (induction repos arbitrary: rn res) (simp_all add: clone_repository_dry_run)

lemma all_update: "\<forall>t \<in> set ts. P t \<Longrightarrow> P t' \<Longrightarrow> \<forall>t \<in> set (ts[i := t']). P t"
  using set_update_subset_insert [of ts i t'] by auto

lemma step_task_dry_run:
  "idle t \<Longrightarrow> idle (fst (step_task git org_name base_dir True t w))
              \<and> snd (step_task git org_name base_dir True t w) = w"
  by (cases t) simp_all

lemma finish_task_dry_run:
  "idle t \<Longrightarrow> snd (finish_task git org_name base_dir True t w) = w"
  by (cases t) (simp_all add: clone_repository_dry_run)

lemma pool_steps_dry_run:
  "\<forall>t \<in> set ts. idle t \<Longrightarrow>
     (\<forall>t \<in> set (fst (pool_steps git org_name base_dir True cs ts w)). idle t)
     \<and> snd (pool_steps git org_name base_dir True cs ts w) = w"
proof (induction cs arbitrary: ts)
  case Nil
  then show ?case by simp
next
  case (Cons c cs)
  show ?case
  proof (cases "ts = []")
    case True
    then show ?thesis by simp
  next
    case False
    let ?i = "c mod length ts"
    have "idle (ts ! ?i)" using Cons.prems False by simp
    then have st: "idle (fst (step_task git org_name base_dir True (ts ! ?i) w))
              \<and> snd (step_task git org_name base_dir True (ts ! ?i) w) = w"
      by (rule step_task_dry_run)
    have "\<forall>t \<in> set (ts[?i := fst (step_task git org_name base_dir True (ts ! ?i) w)]). idle t"
      using all_update [OF Cons.prems, of "fst (step_task git org_name base_dir True (ts ! ?i) w)"] st
      by blast
    from Cons.IH [OF this] show ?thesis
      using False st by (simp add: case_prod_beta)
  qed
qed

lemma drain_dry_run:
  "\<forall>t \<in> set ts. idle t \<Longrightarrow> snd (drain git org_name base_dir True ts w) = w"
proof (induction ts)
  case Nil
  then show ?case by simp
next
  case (Cons t ts)
  have "snd (finish_task git org_name base_dir True t w) = w"
    using Cons.prems by (simp add: finish_task_dry_run)
  then show ?case using Cons by (simp add: case_prod_beta)
qed

lemma run_pool_dry_run:
  "snd (run_pool git org_name base_dir True choices repos w) = w"
proof -
  have "\<forall>t \<in> set (map Submitted repos). idle t" by simp
  from pool_steps_dry_run [OF this, of git org_name base_dir choices w] show ?thesis
    by (simp add: run_pool_def case_prod_beta drain_dry_run)
qed

lemma clone_all_dry_run:
  "snd (clone_all_repositories git sched repos org_name base_dir parallel max_workers True w) = w"
  using run_pool_dry_run [of git org_name base_dir "run_choices sched" repos w]
  by (auto simp: clone_all_repositories_def sequential_loop_dry_run
           split: prod.splits option.splits)

text \<open>
  C4. With \<open>dry_run\<close> set, \<open>clone_repository\<close> on a repository whose target path does not
  exist returns \<open>(name, True, None)\<close> together with the world it was given: the file
  system is the same (no organisation directory, no target directory) and the log of
  subprocess calls is the same (\<open>git\<close> was not run). \<open>clone_all_repositories\<close> with
  \<open>dry_run\<close> set returns the world it was given as well, in the loop and in the pool, so
  \<open>base_dir/org_name\<close> is not created.
\<close>

theorem dry_run_touches_nothing:
  "(\<not> path_exists (files w) (target_path base_dir org_name repo) \<longrightarrow>
      clone_repository git repo org_name base_dir True w = (Inr (name repo, True, None), w))
   \<and> snd (clone_all_repositories git sched repos org_name base_dir parallel max_workers True w) = w"
  by (simp add: clone_repository_dry_run clone_all_dry_run)

theorem dry_run_touches_nothing_witness:
  "\<not> path_exists (files empty_world) (target_path [''srv''] ''acme'' repoA)
   \<and> clone_repository git_ok repoA ''acme'' [''srv''] True empty_world
       = (Inr (''repoA'', True, None), empty_world)
   \<and> snd (clone_all_repositories git_ok \<lparr>run_choices = [1], yield_choices = [0]\<rparr>
            [repoA, repoB] ''acme'' [''srv''] True (Some 2) True empty_world) = empty_world"
  using dry_run_touches_nothing [of empty_world "[''srv'']" "''acme''" repoA git_ok
          "\<lparr>run_choices = [1], yield_choices = [0]\<rparr>" "[repoA, repoB]" True "Some 2"]
  by (simp add: empty_world_def path_exists_def repoA_def)

subsection \<open>Classifying what the subprocess did\<close>

lemma outcome_detail_iff:
  "fst (clone_repository git repo org_name base_dir dry_run w) = Inr (n, s, d)
     \<Longrightarrow> (d = None) = s"
  by (auto simp: clone_repository_def Let_def split: if_splits sum.splits run_result.splits)

text \<open>
  C6. Take a repository whose target does not exist, no dry run, and a parent directory
  that could be made. \<open>git clone\<close> is then run once, with a timeout of 300 seconds, and
  its result is classified: a return code other than 0 gives
  \<open>(name, False, "Failed to clone <name>: <stderr>")\<close>, an expired timeout gives
  \<open>(name, False, "Clone timeout for <name> (exceeded 5 minutes)")\<close>, return code 0 gives
  \<open>(name, True, None)\<close>. Whatever outcome \<open>clone_repository\<close> returns, on any input, its
  detail is \<open>None\<close> exactly when its success flag is true.
\<close>

theorem clone_repository_classifies:
  assumes fresh: "\<not> path_exists (files w) (target_path base_dir org_name repo)"
    and parent: "mkdir_parents (butlast (target_path base_dir org_name repo)) (files w) = Inr fs1"
    and ran: "git (clone_url repo) (target_path base_dir org_name repo) 300 fs1 = (r, fs2)"
  shows "(\<forall>rc err. r = Completed rc err \<and> rc \<noteq> 0 \<longrightarrow>
            fst (clone_repository git repo org_name base_dir False w)
              = Inr (name repo, False, Some (''Failed to clone '' @ name repo @ '': '' @ err)))
       \<and> (r = TimeoutExpired \<longrightarrow>
            fst (clone_repository git repo org_name base_dir False w)
              = Inr (name repo, False,
                     Some (''Clone timeout for '' @ name repo @ '' (exceeded 5 minutes)'')))
       \<and> (\<forall>err. r = Completed 0 err \<longrightarrow>
            fst (clone_repository git repo org_name base_dir False w) = Inr (name repo, True, None))
       \<and> calls (snd (clone_repository git repo org_name base_dir False w))
            = calls w @ [([''git'', ''clone'', clone_url repo,
                           path_str (target_path base_dir org_name repo)], 300)]
       \<and> (\<forall>git' repo' org' base' dry' w' n s d.
            fst (clone_repository git' repo' org' base' dry' w') = Inr (n, s, d)
            \<longrightarrow> (d = None) = s)"
proof -
  have "\<forall>git' repo' org' base' dry' w' n s d.
            fst (clone_repository git' repo' org' base' dry' w') = Inr (n, s, d)
            \<longrightarrow> (d = None) = s"
    using outcome_detail_iff by blast
  moreover have "calls (snd (clone_repository git repo org_name base_dir False w))
            = calls w @ [([''git'', ''clone'', clone_url repo,
                           path_str (target_path base_dir org_name repo)], 300)]"
    using assms by (auto simp: clone_repository_def Let_def split: run_result.splits)
  moreover have "\<forall>rc err. r = Completed rc err \<and> rc \<noteq> 0 \<longrightarrow>
            fst (clone_repository git repo org_name base_dir False w)
              = Inr (name repo, False, Some (''Failed to clone '' @ name repo @ '': '' @ err))"
    using assms by (auto simp: clone_repository_def Let_def)
  moreover have "r = TimeoutExpired \<longrightarrow>
            fst (clone_repository git repo org_name base_dir False w)
              = Inr (name repo, False,
                     Some (''Clone timeout for '' @ name repo @ '' (exceeded 5 minutes)''))"
    using assms by (auto simp: clone_repository_def Let_def)
  moreover have "\<forall>err. r = Completed 0 err \<longrightarrow>
            fst (clone_repository git repo org_name base_dir False w) = Inr (name repo, True, None)"
    using assms by (auto simp: clone_repository_def Let_def)
  ultimately show ?thesis by blast
qed

theorem clone_repository_classifies_witness:
  "fst (clone_repository git_fails repoB ''acme'' [''srv''] False empty_world)
     = Inr (''repoB'', False, Some ''Failed to clone repoB: fatal: not found'')
   \<and> fst (clone_repository git_hangs repoB ''acme'' [''srv''] False empty_world)
     = Inr (''repoB'', False, Some ''Clone timeout for repoB (exceeded 5 minutes)'')
   \<and> fst (clone_repository git_ok repoB ''acme'' [''srv''] False empty_world)
     = Inr (''repoB'', True, None)"
proof -
  let ?fs1 = "[[''srv''] \<mapsto> Dir, [''srv'', ''acme''] \<mapsto> Dir]"
  have fresh: "\<not> path_exists (files empty_world) (target_path [''srv''] ''acme'' repoB)"
    by (simp add: empty_world_def path_exists_def)
  have parent: "mkdir_parents (butlast (target_path [''srv''] ''acme'' repoB)) (files empty_world)
                  = Inr ?fs1"
    by (simp add: mkdir_parents_def target_path_def empty_world_def ensure_dir_def upt_rec)
  have f: "git_fails (clone_url repoB) (target_path [''srv''] ''acme'' repoB) 300 ?fs1
             = (Completed 1 ''fatal: not found'', ?fs1)"
    by (simp add: git_fails_def)
  have h: "git_hangs (clone_url repoB) (target_path [''srv''] ''acme'' repoB) 300 ?fs1
             = (TimeoutExpired, ?fs1(target_path [''srv''] ''acme'' repoB \<mapsto> Dir))"
    by (simp add: git_hangs_def)
  have k: "git_ok (clone_url repoB) (target_path [''srv''] ''acme'' repoB) 300 ?fs1
             = (Completed 0 [], ?fs1(target_path [''srv''] ''acme'' repoB \<mapsto> Dir))"
    by (simp add: git_ok_def target_path_def)
  show ?thesis
    using clone_repository_classifies [where git = git_fails, OF fresh parent f]
          clone_repository_classifies [where git = git_hangs, OF fresh parent h]
          clone_repository_classifies [where git = git_ok, OF fresh parent k]
    by (simp add: repoB_def)
qed

subsection \<open>Exceptions raised by one call\<close>

lemmas model_defs = clone_all_repositories_def clone_repository_def run_pool_def
  mkdir_parents_def ensure_dir_def target_path_def path_exists_def path_str_def Let_def upt_rec

text \<open>
  C1. The claim: when \<open>git\<close> is missing, \<open>clone_repository\<close> raises \<open>CloneError\<close>, and
  \<open>clone_all_repositories\<close> lets that error leave the batch instead of recording a failed
  outcome and going on. The first half holds. The second does not: \<open>CloneError\<close> derives
  from \<open>Exception\<close> and both handlers catch \<open>Exception\<close>. With \<open>git\<close> missing and the
  repositories \<open>repoA\<close>, \<open>repoB\<close>, the pool returns a mapping with one failed outcome for
  each; the loop, started on a disk where \<open>repoA\<close> exists, returns a mapping in which the
  error of \<open>repoB\<close> is stored as the outcome of \<open>repoA\<close>.
\<close>

theorem missing_git_is_absorbed:
  "fst (clone_repository git_missing repoA ''acme'' [''srv''] False empty_world)
     = Inl (CloneError ''git command not found. Please ensure git is installed and in your PATH.'')
   \<and> fst (clone_all_repositories git_missing in_order [repoA, repoB] ''acme'' [''srv'']
             True (Some 2) False empty_world)
     = Inr [(''repoA'', False,
             Some ''git command not found. Please ensure git is installed and in your PATH.''),
            (''repoB'', False,
             Some ''git command not found. Please ensure git is installed and in your PATH.'')]
   \<and> fst (clone_all_repositories git_missing in_order [repoA, repoB] ''acme'' [''srv'']
             False None False repoA_on_disk)
     = Inr [(''repoA'', False,
             Some ''git command not found. Please ensure git is installed and in your PATH.'')]"
  by (simp add: model_defs git_missing_def repoA_def repoB_def empty_world_def
        repoA_on_disk_def in_order_def)

text \<open>
  C2. The claim: in both modes an unexpected exception raised for a repository \<open>d\<close>
  becomes a failed outcome under the name of \<open>d\<close>, the other outcomes stay, and the
  batch goes on. The pool does that. The loop stores under \<open>repo_name\<close>, the name bound
  by the last call that returned: with \<open>repoA\<close> cloned and \<open>subprocess.run\<close> raising for
  \<open>repoB\<close>, the success of \<open>repoA\<close> is overwritten by the failure of \<open>repoB\<close> and \<open>repoB\<close>
  has no entry; with the raising repository first, \<open>repo_name\<close> is unbound and the
  batch ends with \<open>UnboundLocalError\<close>.
\<close>

theorem sequential_handler_uses_previous_name:
  "fst (clone_all_repositories git_breaks_on_B in_order [repoA, repoB] ''acme'' [''srv'']
          False None False empty_world)
     = Inr [(''repoA'', False, Some ''[Errno 24] Too many open files'')]
   \<and> fst (clone_all_repositories git_breaks_on_B in_order [repoA, repoB] ''acme'' [''srv'']
          True None False empty_world)
     = Inr [(''repoA'', True, None), (''repoB'', False, Some ''[Errno 24] Too many open files'')]
   \<and> fst (clone_all_repositories git_breaks_on_B in_order [repoB, repoA] ''acme'' [''srv'']
          False None False empty_world)
     = Inl (UnboundLocalError ''repo_name'')"
  by (simp add: model_defs git_breaks_on_B_def repoA_def repoB_def empty_world_def in_order_def)

text \<open>
  C3. The claim: for repositories with pairwise distinct names the mapping has exactly
  one entry for each, in both modes. In the loop the handler of line 166 breaks it: on a
  disk where \<open>repoA\<close> exists, with \<open>subprocess.run\<close> raising for \<open>repoB\<close>, the two
  repositories give a mapping with the single key \<open>repoA\<close>.
\<close>

theorem sequential_loop_drops_an_entry:
  "distinct (map name [repoA, repoB])
   \<and> length [repoA, repoB] = 2
   \<and> (\<exists>res. fst (clone_all_repositories git_breaks_on_B in_order [repoA, repoB] ''acme''
                    [''srv''] False None False repoA_on_disk) = Inr res
            \<and> length res = 1 \<and> dict_get res ''repoB'' = None)"
  by (simp add: model_defs git_breaks_on_B_def repoA_def repoB_def repoA_on_disk_def
        in_order_def dict_get_def)

subsection \<open>The result dict\<close>

lemma map_of_dict_set: "map_of (dict_set res k v) = (map_of res)(k \<mapsto> v)"
  by (induction res k v rule: dict_set.induct) auto

lemma keys_dict_set: "fst ` set (dict_set res k v) = insert k (fst ` set res)"
  by (induction res k v rule: dict_set.induct) auto

lemma distinct_dict_set:
  "distinct (map fst res) \<Longrightarrow> distinct (map fst (dict_set res k v))"
  by (induction res k v rule: dict_set.induct) (auto simp: keys_dict_set)

subsection \<open>Orders chosen by the pool\<close>

lemma mset_pick_order: "mset (pick_order cs xs) = mset xs"
proof (induction cs xs rule: pick_order.induct)
  case (3 c cs x xs)
  let ?ys = "x # xs"
  let ?i = "c mod length ?ys"
  have i: "?i < length ?ys" by simp
  have "mset ?ys = mset (take ?i ?ys @ ?ys ! ?i # drop (Suc ?i) ?ys)"
    using id_take_nth_drop [OF i] by simp
  then show ?case using 3 by (simp add: Let_def)
qed simp_all

lemma set_pick_order: "set (pick_order cs xs) = set xs"
  using mset_pick_order [of cs xs] by (metis set_mset_mset)

lemma length_pick_order: "length (pick_order cs xs) = length xs"
  using mset_pick_order [of cs xs] by (metis size_mset)

subsection \<open>Directories are only added\<close>

lemma extends_refl: "extends fs fs"
  by (simp add: extends_def)

lemma extends_trans: "extends a b \<Longrightarrow> extends b c \<Longrightarrow> extends a c"
  by (simp add: extends_def)

lemma ensure_dir_extends: "ensure_dir p fs = Inr fs' \<Longrightarrow> extends fs fs'"
  by (auto simp: ensure_dir_def extends_def split: option.splits node.splits)

lemma ensure_dir_makes: "ensure_dir p fs = Inr fs' \<Longrightarrow> fs' p = Some Dir"
  by (auto simp: ensure_dir_def split: option.splits node.splits)

lemma mkdir_steps_extends: "mkdir_steps ps fs = Inr fs' \<Longrightarrow> extends fs fs'"
proof (induction ps arbitrary: fs)
  case Nil
  then show ?case by (simp add: extends_refl)
next
  case (Cons p ps)
  then obtain fs1 where a: "ensure_dir p fs = Inr fs1" and b: "mkdir_steps ps fs1 = Inr fs'"
    by (auto split: sum.splits)
  show ?case using extends_trans [OF ensure_dir_extends [OF a] Cons.IH [OF b]] .
qed

lemma mkdir_steps_makes: "mkdir_steps ps fs = Inr fs' \<Longrightarrow> \<forall>q \<in> set ps. fs' q = Some Dir"
proof (induction ps arbitrary: fs)
  case Nil
  then show ?case by simp
next
  case (Cons p ps)
  then obtain fs1 where a: "ensure_dir p fs = Inr fs1" and b: "mkdir_steps ps fs1 = Inr fs'"
    by (auto split: sum.splits)
  have "fs' p = Some Dir"
    using ensure_dir_makes [OF a] mkdir_steps_extends [OF b] by (simp add: extends_def)
  then show ?case using Cons.IH [OF b] by simp
qed

lemma mkdir_steps_present: "\<forall>q \<in> set ps. fs q = Some Dir \<Longrightarrow> mkdir_steps ps fs = Inr fs"
  by (induction ps) (simp_all add: ensure_dir_def)

lemma prefixes_set: "set (map (\<lambda>n. take n p) [1..<Suc (length p)]) = (\<lambda>n. take n p) ` {1..length p}"
  by auto

lemma mkdir_parents_extends: "mkdir_parents p fs = Inr fs' \<Longrightarrow> extends fs fs'"
  unfolding mkdir_parents_def by (rule mkdir_steps_extends)

lemma mkdir_parents_makes: "mkdir_parents p fs = Inr fs' \<Longrightarrow> dirs_made p fs'"
  unfolding mkdir_parents_def dirs_made_def
  using mkdir_steps_makes [of "map (\<lambda>n. take n p) [1..<Suc (length p)]" fs fs'] by auto

lemma mkdir_parents_present: "dirs_made p fs \<Longrightarrow> mkdir_parents p fs = Inr fs"
  unfolding mkdir_parents_def dirs_made_def
  by (rule mkdir_steps_present) auto

lemma dirs_made_extends: "dirs_made p fs \<Longrightarrow> extends fs fs' \<Longrightarrow> dirs_made p fs'"
  by (simp add: dirs_made_def extends_def)

subsection \<open>What one call does to the disk\<close>

lemma clone_repository_skips:
  "path_exists (files w) (target_path base_dir org_name repo) \<Longrightarrow>
   clone_repository git repo org_name base_dir dry_run w
     = (Inr (name repo, False, Some ''Already exists''), w)"
  by (simp add: clone_repository_def)

lemma clone_repository_name:
  "fst (clone_repository git repo org_name base_dir dry_run w) = Inr (n, s, d) \<Longrightarrow> n = name repo"
  by (auto simp: clone_repository_def Let_def split: if_splits sum.splits run_result.splits)

lemma clone_repository_extends:
  assumes "well_behaved git"
  shows "extends (files w) (files (snd (clone_repository git repo org_name base_dir dry_run w)))"
proof -
  have g: "\<And>url target t fs. extends fs (snd (git url target t fs))"
    using assms by (simp add: well_behaved_def)
  show ?thesis
    using g extends_trans [OF mkdir_parents_extends g]
    by (auto simp: clone_repository_def Let_def extends_refl
             split: if_splits sum.splits run_result.splits)
qed

lemma clone_repository_success_creates:
  assumes "well_behaved git"
    and "fst (clone_repository git repo org_name base_dir False w) = Inr (n, True, d)"
  shows "path_exists (files (snd (clone_repository git repo org_name base_dir False w)))
           (target_path base_dir org_name repo)"
proof -
  have g: "\<And>url target t fs err. fst (git url target t fs) = Completed 0 err
               \<Longrightarrow> snd (git url target t fs) target \<noteq> None"
    using assms(1) by (simp add: well_behaved_def)
  show ?thesis
    using assms(2) g
    by (auto simp: clone_repository_def Let_def path_exists_def
             split: if_splits sum.splits run_result.splits)
qed

text \<open>
  The three actions of a task, done one after the other, are \<open>clone_repository\<close>; and
  finishing a task after one of its actions is finishing it.
\<close>

lemma clone_repository_stages:
  "clone_repository git repo org_name base_dir dry_run w =
     (if path_exists (files w) (target_path base_dir org_name repo) then
        (Inr (name repo, False, Some ''Already exists''), w)
      else if dry_run then (Inr (name repo, True, None), w)
      else
        (case mkdir_parents (butlast (target_path base_dir org_name repo)) (files w) of
           Inl e \<Rightarrow> (Inl e, w)
         | Inr fs1 \<Rightarrow> run_git git repo org_name base_dir (w\<lparr>files := fs1\<rparr>)))"
  by (simp add: clone_repository_def run_git_def Let_def split: sum.splits)

lemma finish_task_step:
  "finish_task git org_name base_dir dry_run (fst (step_task git org_name base_dir dry_run t w))
     (snd (step_task git org_name base_dir dry_run t w))
   = finish_task git org_name base_dir dry_run t w"
  by (cases t) (auto simp: clone_repository_stages split: sum.splits prod.splits)

lemma run_git_name:
  "fst (run_git git repo org_name base_dir w) = Inr (n, s, d) \<Longrightarrow> n = name repo"
  by (auto simp: run_git_def Let_def split: if_splits run_result.splits)

lemma run_git_extends:
  assumes "well_behaved git"
  shows "extends (files w) (files (snd (run_git git repo org_name base_dir w)))"
proof -
  have g: "\<And>url target t fs. extends fs (snd (git url target t fs))"
    using assms by (simp add: well_behaved_def)
  show ?thesis
    using g by (auto simp: run_git_def Let_def split: if_splits run_result.splits)
qed

lemma run_git_success_creates:
  assumes "well_behaved git"
    and "fst (run_git git repo org_name base_dir w) = Inr (n, True, d)"
  shows "files (snd (run_git git repo org_name base_dir w)) (base_dir @ [org_name, n]) \<noteq> None"
proof -
  have g: "\<And>url target t fs err. fst (git url target t fs) = Completed 0 err
               \<Longrightarrow> snd (git url target t fs) target \<noteq> None"
    using assms(1) by (simp add: well_behaved_def)
  show ?thesis
    using assms(2) g
    by (auto simp: run_git_def Let_def target_path_def split: if_splits run_result.splits)
qed

subsection \<open>Successes recorded by the first run\<close>

lemma recorded_ok_extends:
  "recorded_ok base_dir org_name res fs \<Longrightarrow> extends fs fs' \<Longrightarrow> recorded_ok base_dir org_name res fs'"
  by (fastforce simp: recorded_ok_def extends_def)

lemma recorded_ok_failure:
  "recorded_ok base_dir org_name res fs \<Longrightarrow> recorded_ok base_dir org_name (dict_set res k (False, m)) fs"
  by (simp add: recorded_ok_def map_of_dict_set)

lemma recorded_ok_outcome:
  "recorded_ok base_dir org_name res fs \<Longrightarrow> (s \<Longrightarrow> fs (base_dir @ [org_name, k]) \<noteq> None)
     \<Longrightarrow> recorded_ok base_dir org_name (dict_set res k (s, m)) fs"
  by (simp add: recorded_ok_def map_of_dict_set)

lemma sequential_loop_inv:
  assumes wb: "well_behaved git"
  shows "sequential_loop git org_name base_dir False repos rn res w = (Inr res', w')
     \<Longrightarrow> recorded_ok base_dir org_name res (files w)
     \<Longrightarrow> recorded_ok base_dir org_name res' (files w') \<and> extends (files w) (files w')"
proof (induction repos arbitrary: rn res w)
  case Nil
  then show ?case by (simp add: extends_refl)
next
  case (Cons repo rest)
  obtain r w1 where c: "clone_repository git repo org_name base_dir False w = (r, w1)"
    by (cases "clone_repository git repo org_name base_dir False w")
  have e1: "extends (files w) (files w1)"
    using clone_repository_extends [OF wb, of w repo org_name base_dir False] c by simp
  have ok1: "recorded_ok base_dir org_name res (files w1)"
    using recorded_ok_extends [OF Cons.prems(2) e1] .
  show ?case
  proof (cases r)
    case (Inr out)
    obtain n s d where out: "out = (n, s, d)" by (cases out)
    have loop: "sequential_loop git org_name base_dir False rest (Some n)
                  (dict_set res n (s, d)) w1 = (Inr res', w')"
      using Cons.prems(1) c Inr out by simp
    have nm: "n = name repo"
      using clone_repository_name [of git repo org_name base_dir False w n s d] c Inr out by simp
    have made: "s \<Longrightarrow> files w1 (base_dir @ [org_name, n]) \<noteq> None"
    proof -
      assume s
      then have "d = None"
        using c Inr out
        by (auto simp: clone_repository_def Let_def split: if_splits sum.splits run_result.splits)
      then show ?thesis
        using clone_repository_success_creates [OF wb, of repo org_name base_dir w n d]
              c Inr out nm \<open>s\<close>
        by (simp add: path_exists_def target_path_def)
    qed
    have "recorded_ok base_dir org_name (dict_set res n (s, d)) (files w1)"
      using recorded_ok_outcome [OF ok1] made by blast
    from Cons.IH [OF loop this] show ?thesis
      using extends_trans [OF e1] by blast
  next
    case (Inl e)
    show ?thesis
    proof (cases rn)
      case None
      then show ?thesis using Cons.prems(1) c Inl by simp
    next
      case (Some k)
      have loop: "sequential_loop git org_name base_dir False rest (Some k)
                    (dict_set res k (False, Some (str_exn e))) w1 = (Inr res', w')"
        using Cons.prems(1) c Inl Some by simp
      from Cons.IH [OF loop recorded_ok_failure [OF ok1]] show ?thesis
        using extends_trans [OF e1] by blast
    qed
  qed
qed

text \<open>
  In the pool: a task that is done with success has its target on disk, and this stays so
  whatever the other calls do.
\<close>

lemma task_ok_extends:
  "task_ok base_dir org_name fs t \<Longrightarrow> extends fs fs' \<Longrightarrow> task_ok base_dir org_name fs' t"
  by (cases t) (auto simp: task_ok_def extends_def)

lemma step_task_inv:
  assumes wb: "well_behaved git"
    and ok: "task_ok base_dir org_name (files w) t"
  shows "extends (files w) (files (snd (step_task git org_name base_dir False t w)))
         \<and> task_ok base_dir org_name (files (snd (step_task git org_name base_dir False t w)))
              (fst (step_task git org_name base_dir False t w))"
proof (cases t)
  case (Submitted repo)
  then show ?thesis by (simp add: extends_refl task_ok_def)
next
  case (Checked repo)
  then show ?thesis
    by (auto simp: extends_refl task_ok_def mkdir_parents_extends split: sum.splits)
next
  case (Ready repo)
  then show ?thesis
    using run_git_extends [OF wb, of w repo org_name base_dir]
          run_git_success_creates [OF wb, of repo org_name base_dir w]
    by (auto simp: task_ok_def case_prod_beta)
next
  case (Done repo r)
  then show ?thesis using ok by (simp add: extends_refl)
qed

lemma finish_task_inv:
  assumes wb: "well_behaved git"
    and ok: "task_ok base_dir org_name (files w) t"
  shows "extends (files w) (files (snd (finish_task git org_name base_dir False t w)))
         \<and> (\<forall>n d. snd (fst (finish_task git org_name base_dir False t w)) = Inr (n, True, d)
               \<longrightarrow> files (snd (finish_task git org_name base_dir False t w))
                     (base_dir @ [org_name, n]) \<noteq> None)"
proof (cases t)
  case (Submitted repo)
  have "\<forall>n d. fst (clone_repository git repo org_name base_dir False w) = Inr (n, True, d)
          \<longrightarrow> files (snd (clone_repository git repo org_name base_dir False w))
                (base_dir @ [org_name, n]) \<noteq> None"
  proof (intro allI impI)
    fix n d assume r: "fst (clone_repository git repo org_name base_dir False w) = Inr (n, True, d)"
    have "n = name repo" using clone_repository_name [OF r] .
    then show "files (snd (clone_repository git repo org_name base_dir False w))
                (base_dir @ [org_name, n]) \<noteq> None"
      using clone_repository_success_creates [OF wb r]
      by (simp add: path_exists_def target_path_def)
  qed
  then show ?thesis
    using Submitted clone_repository_extends [OF wb, of w repo org_name base_dir False]
    by (simp add: case_prod_beta)
next
  case (Checked repo)
  show ?thesis
  proof (cases "mkdir_parents (butlast (target_path base_dir org_name repo)) (files w)")
    case (Inl e)
    then show ?thesis using Checked by (simp add: extends_refl)
  next
    case (Inr fs1)
    have e1: "extends (files w) fs1" using mkdir_parents_extends [OF Inr] .
    have e2: "extends fs1 (files (snd (run_git git repo org_name base_dir (w\<lparr>files := fs1\<rparr>))))"
      using run_git_extends [OF wb, of "w\<lparr>files := fs1\<rparr>" repo org_name base_dir] by simp
    show ?thesis
      using Checked Inr extends_trans [OF e1 e2]
            run_git_success_creates [OF wb, of repo org_name base_dir "w\<lparr>files := fs1\<rparr>"]
      by (auto simp: case_prod_beta)
  qed
next
  case (Ready repo)
  then show ?thesis
    using run_git_extends [OF wb, of w repo org_name base_dir]
          run_git_success_creates [OF wb, of repo org_name base_dir w]
    by (auto simp: case_prod_beta)
next
  case (Done repo r)
  then show ?thesis using ok by (auto simp: extends_refl task_ok_def)
qed

lemma pool_steps_inv:
  assumes wb: "well_behaved git"
  shows "\<forall>t \<in> set ts. task_ok base_dir org_name (files w) t \<Longrightarrow>
     extends (files w) (files (snd (pool_steps git org_name base_dir False cs ts w)))
     \<and> (\<forall>t \<in> set (fst (pool_steps git org_name base_dir False cs ts w)).
           task_ok base_dir org_name
             (files (snd (pool_steps git org_name base_dir False cs ts w))) t)"
proof (induction cs arbitrary: ts w)
  case Nil
  then show ?case by (simp add: extends_refl)
next
  case (Cons c cs)
  show ?case
  proof (cases "ts = []")
    case True
    then show ?thesis by (simp add: extends_refl)
  next
    case False
    let ?i = "c mod length ts"
    let ?st = "step_task git org_name base_dir False (ts ! ?i) w"
    have "task_ok base_dir org_name (files w) (ts ! ?i)" using Cons.prems False by simp
    from step_task_inv [OF wb this]
    have e: "extends (files w) (files (snd ?st))"
      and ok': "task_ok base_dir org_name (files (snd ?st)) (fst ?st)" by simp_all
    have "\<forall>t \<in> set ts. task_ok base_dir org_name (files (snd ?st)) t"
      using Cons.prems task_ok_extends [OF _ e] by blast
    then have "\<forall>t \<in> set (ts[?i := fst ?st]). task_ok base_dir org_name (files (snd ?st)) t"
      using ok' by (rule all_update)
    from Cons.IH [OF this] show ?thesis
      using False extends_trans [OF e] by (simp add: case_prod_beta)
  qed
qed

lemma drain_inv:
  assumes wb: "well_behaved git"
  shows "\<forall>t \<in> set ts. task_ok base_dir org_name (files w) t \<Longrightarrow>
     extends (files w) (files (snd (drain git org_name base_dir False ts w)))
     \<and> (\<forall>f \<in> set (fst (drain git org_name base_dir False ts w)). \<forall>n d.
           snd f = Inr (n, True, d)
           \<longrightarrow> files (snd (drain git org_name base_dir False ts w))
                 (base_dir @ [org_name, n]) \<noteq> None)"
proof (induction ts arbitrary: w)
  case Nil
  then show ?case by (simp add: extends_refl)
next
  case (Cons t ts)
  let ?ft = "finish_task git org_name base_dir False t w"
  let ?dr = "drain git org_name base_dir False ts (snd ?ft)"
  have "task_ok base_dir org_name (files w) t" using Cons.prems by simp
  from finish_task_inv [OF wb this]
  have e: "extends (files w) (files (snd ?ft))"
    and made: "\<forall>n d. snd (fst ?ft) = Inr (n, True, d)
                 \<longrightarrow> files (snd ?ft) (base_dir @ [org_name, n]) \<noteq> None" by simp_all
  have "\<forall>t \<in> set ts. task_ok base_dir org_name (files (snd ?ft)) t"
    using Cons.prems task_ok_extends [OF _ e] by simp
  from Cons.IH [OF this]
  have e2: "extends (files (snd ?ft)) (files (snd ?dr))"
    and rest: "\<forall>f \<in> set (fst ?dr). \<forall>n d. snd f = Inr (n, True, d)
                 \<longrightarrow> files (snd ?dr) (base_dir @ [org_name, n]) \<noteq> None" by simp_all
  have head: "\<forall>n d. snd (fst ?ft) = Inr (n, True, d)
                 \<longrightarrow> files (snd ?dr) (base_dir @ [org_name, n]) \<noteq> None"
    using made e2 by (auto simp: extends_def)
  show ?case
    using extends_trans [OF e e2] head rest by (simp add: case_prod_beta)
qed

lemma run_pool_inv:
  assumes wb: "well_behaved git"
  shows "run_pool git org_name base_dir False choices repos w = (futs, w')
     \<Longrightarrow> extends (files w) (files w')
         \<and> (\<forall>f \<in> set futs. \<forall>n d. snd f = Inr (n, True, d)
               \<longrightarrow> files w' (base_dir @ [org_name, n]) \<noteq> None)"
proof -
  assume run: "run_pool git org_name base_dir False choices repos w = (futs, w')"
  let ?ps = "pool_steps git org_name base_dir False choices (map Submitted repos) w"
  have "\<forall>t \<in> set (map Submitted repos). task_ok base_dir org_name (files w) t"
    by (simp add: task_ok_def)
  from pool_steps_inv [OF wb this]
  have e: "extends (files w) (files (snd ?ps))"
    and ok: "\<forall>t \<in> set (fst ?ps). task_ok base_dir org_name (files (snd ?ps)) t" by simp_all
  have d: "drain git org_name base_dir False (fst ?ps) (snd ?ps) = (futs, w')"
    using run by (simp add: run_pool_def case_prod_beta)
  from drain_inv [OF wb ok] d show ?thesis
    using extends_trans [OF e] by simp
qed

lemma collect_success_source:
  "map_of (collect futs res) n = Some (True, d)
     \<Longrightarrow> map_of res n = Some (True, d) \<or> (\<exists>f \<in> set futs. snd f = Inr (n, True, d))"
proof (induction futs res rule: collect.induct)
  case (1 res)
  then show ?case by simp
next
  case (2 repo rn success error fs res)
  then show ?case
    by (auto simp: map_of_dict_set split: if_splits)
next
  case (3 repo e fs res)
  then show ?case
    by (auto simp: map_of_dict_set split: if_splits)
qed

lemma collect_all_skipped:
  "\<forall>f \<in> set futs. snd f = Inr (name (fst f), False, Some ''Already exists'')
     \<Longrightarrow> map_of (collect futs res) n =
           (if n \<in> (\<lambda>f. name (fst f)) ` set futs then Some (False, Some ''Already exists'')
            else map_of res n)"
proof (induction futs arbitrary: res)
  case Nil
  then show ?case by simp
next
  case (Cons f futs)
  obtain repo r where f: "f = (repo, r)" by (cases f)
  have r: "r = Inr (name repo, False, Some ''Already exists'')"
    using Cons.prems f by simp
  have "\<forall>f \<in> set futs. snd f = Inr (name (fst f), False, Some ''Already exists'')"
    using Cons.prems by simp
  from Cons.IH [OF this] show ?case
    by (simp add: f r map_of_dict_set)
qed

lemma sequential_loop_all_exist:
  "\<forall>d \<in> set repos. path_exists (files w) (target_path base_dir org_name d)
     \<Longrightarrow> \<exists>res'. sequential_loop git org_name base_dir dry_run repos rn res w = (Inr res', w)
            \<and> (\<forall>n. map_of res' n =
                 (if n \<in> name ` set repos then Some (False, Some ''Already exists'')
                  else map_of res n))"
proof (induction repos arbitrary: rn res)
  case Nil
  then show ?case by simp
next
  case (Cons repo rest)
  have rest: "\<forall>d \<in> set rest. path_exists (files w) (target_path base_dir org_name d)"
    using Cons.prems by simp
  have step: "clone_repository git repo org_name base_dir dry_run w
                = (Inr (name repo, False, Some ''Already exists''), w)"
    using Cons.prems by (simp add: clone_repository_skips)
  obtain res' where
    loop: "sequential_loop git org_name base_dir dry_run rest (Some (name repo))
             (dict_set res (name repo) (False, Some ''Already exists'')) w = (Inr res', w)"
    and m: "\<forall>n. map_of res' n =
                 (if n \<in> name ` set rest then Some (False, Some ''Already exists'')
                  else map_of (dict_set res (name repo) (False, Some ''Already exists'')) n)"
    using Cons.IH [OF rest] by blast
  have "sequential_loop git org_name base_dir dry_run (repo # rest) rn res w = (Inr res', w)"
    using step loop by simp
  moreover have "\<forall>n. map_of res' n =
                 (if n \<in> name ` set (repo # rest) then Some (False, Some ''Already exists'')
                  else map_of res n)"
    using m by (simp add: map_of_dict_set)
  ultimately show ?case by blast
qed

lemma step_task_skips:
  "skips base_dir org_name (files w) t \<Longrightarrow>
     step_task git org_name base_dir dry_run t w
       = (Done (repo_of t) (Inr (name (repo_of t), False, Some ''Already exists'')), w)"
  by (cases t) (auto simp: skips_def path_exists_def)

lemma finish_task_skips:
  "skips base_dir org_name (files w) t \<Longrightarrow>
     finish_task git org_name base_dir dry_run t w
       = ((repo_of t, Inr (name (repo_of t), False, Some ''Already exists'')), w)"
  by (cases t) (auto simp: skips_def path_exists_def clone_repository_def)

lemma pool_steps_skips:
  "\<forall>t \<in> set ts. skips base_dir org_name (files w) t \<Longrightarrow>
     snd (pool_steps git org_name base_dir dry_run cs ts w) = w
     \<and> map repo_of (fst (pool_steps git org_name base_dir dry_run cs ts w)) = map repo_of ts
     \<and> (\<forall>t \<in> set (fst (pool_steps git org_name base_dir dry_run cs ts w)).
           skips base_dir org_name (files w) t)"
proof (induction cs arbitrary: ts)
  case Nil
  then show ?case by simp
next
  case (Cons c cs)
  show ?case
  proof (cases "ts = []")
    case True
    then show ?thesis by simp
  next
    case False
    let ?i = "c mod length ts"
    let ?t' = "Done (repo_of (ts ! ?i))
                 (Inr (name (repo_of (ts ! ?i)), False, Some ''Already exists''))"
    have sk: "skips base_dir org_name (files w) (ts ! ?i)" using Cons.prems False by simp
    have st: "step_task git org_name base_dir dry_run (ts ! ?i) w = (?t', w)"
      using step_task_skips [OF sk] .
    have "skips base_dir org_name (files w) ?t'" using sk by (simp add: skips_def)
    with Cons.prems have "\<forall>t \<in> set (ts[?i := ?t']). skips base_dir org_name (files w) t"
      by (rule all_update)
    moreover have "(map repo_of ts)[?i := repo_of (ts ! ?i)] = map repo_of ts"
      by (simp add: map_update [symmetric])
    ultimately show ?thesis
      using Cons.IH [of "ts[?i := ?t']"] False st by (simp add: map_update)
  qed
qed

lemma drain_skips:
  "\<forall>t \<in> set ts. skips base_dir org_name (files w) t \<Longrightarrow>
     drain git org_name base_dir dry_run ts w
       = (map (\<lambda>t. (repo_of t, Inr (name (repo_of t), False, Some ''Already exists''))) ts, w)"
  by (induction ts) (simp_all add: finish_task_skips)

lemma run_pool_all_exist:
  assumes "\<forall>d \<in> set repos. path_exists (files w) (target_path base_dir org_name d)"
  shows "run_pool git org_name base_dir dry_run choices repos w
           = (map (\<lambda>d. (d, Inr (name d, False, Some ''Already exists''))) repos, w)"
proof -
  let ?ps = "pool_steps git org_name base_dir dry_run choices (map Submitted repos) w"
  have "\<forall>t \<in> set (map Submitted repos). skips base_dir org_name (files w) t"
    using assms by (auto simp: skips_def path_exists_def)
  from pool_steps_skips [OF this, of git dry_run choices]
  have w: "snd ?ps = w" and r: "map repo_of (fst ?ps) = repos"
    and sk: "\<forall>t \<in> set (fst ?ps). skips base_dir org_name (files w) t"
    by (simp_all add: comp_def)
  have "drain git org_name base_dir dry_run (fst ?ps) w
          = (map (\<lambda>d. (d, Inr (name d, False, Some ''Already exists''))) (map repo_of (fst ?ps)), w)"
    using drain_skips [OF sk, of git dry_run] by (simp add: comp_def)
  then show ?thesis using w r by (simp add: run_pool_def case_prod_beta)
qed

subsection \<open>Running the batch twice\<close>

lemma first_run_state:
  assumes wb: "well_behaved git"
    and run: "clone_all_repositories git sched repos org_name base_dir parallel max_workers False w
                = (Inr res1, w1)"
    and ne: "repos \<noteq> []"
  shows "recorded_ok base_dir org_name res1 (files w1)
         \<and> dirs_made (base_dir @ [org_name]) (files w1)"
proof -
  obtain fs1 where mk: "mkdir_parents (base_dir @ [org_name]) (files w) = Inr fs1"
    using run ne by (auto simp: clone_all_repositories_def split: sum.splits)
  let ?w = "w\<lparr>files := fs1\<rparr>"
  have dirs: "dirs_made (base_dir @ [org_name]) (files ?w)"
    using mkdir_parents_makes [OF mk] by simp
  have empty: "recorded_ok base_dir org_name [] (files ?w)"
    by (simp add: recorded_ok_def)
  show ?thesis
  proof (cases parallel)
    case False
    then have "sequential_loop git org_name base_dir False repos None [] ?w = (Inr res1, w1)"
      using run ne mk by (simp add: clone_all_repositories_def)
    from sequential_loop_inv [OF wb this empty] show ?thesis
      using dirs_made_extends [OF dirs] by blast
  next
    case True
    obtain futs where t: "run_pool git org_name base_dir False
                            (run_choices sched) repos ?w = (futs, w1)"
      and res1: "res1 = collect (pick_order (yield_choices sched) futs) []"
      using run ne mk True
      by (auto simp: clone_all_repositories_def Let_def
               split: option.splits if_splits prod.splits)
    have inv: "extends (files ?w) (files w1)
         \<and> (\<forall>f \<in> set futs. \<forall>n d. snd f = Inr (n, True, d)
               \<longrightarrow> files w1 (base_dir @ [org_name, n]) \<noteq> None)"
      using run_pool_inv [OF wb t] .
    have "recorded_ok base_dir org_name res1 (files w1)"
      unfolding recorded_ok_def
    proof (intro allI impI)
      fix n d assume "map_of res1 n = Some (True, d)"
      then have "\<exists>f \<in> set (pick_order (yield_choices sched) futs). snd f = Inr (n, True, d)"
        using collect_success_source [of "pick_order (yield_choices sched) futs" "[]" n d] res1
        by simp
      then show "files w1 (base_dir @ [org_name, n]) \<noteq> None"
        using inv by (auto simp: set_pick_order)
    qed
    then show ?thesis using dirs_made_extends [OF dirs] inv by blast
  qed
qed

lemma rerun_all_skipped:
  assumes ex: "\<forall>d \<in> set repos. path_exists (files w) (target_path base_dir org_name d)"
    and dirs: "dry_run \<or> dirs_made (base_dir @ [org_name]) (files w)"
    and pool: "parallel \<longrightarrow> (\<forall>n. max_workers = Some n \<longrightarrow> 0 < n)"
  shows "\<exists>res. clone_all_repositories git sched repos org_name base_dir parallel max_workers dry_run w
                 = (Inr res, w)
             \<and> (\<forall>d \<in> set repos. dict_get res (name d) = Some (False, Some ''Already exists''))"
proof (cases "repos = []")
  case True
  then show ?thesis by (simp add: clone_all_repositories_def)
next
  case False
  have mk: "(if dry_run then Inr (files w) else mkdir_parents (base_dir @ [org_name]) (files w))
              = Inr (files w)"
    using dirs by (auto simp: mkdir_parents_present)
  have same: "w\<lparr>files := files w\<rparr> = w" by simp
  show ?thesis
  proof (cases parallel)
    case seq: False
    obtain res where
      loop: "sequential_loop git org_name base_dir dry_run repos None [] w = (Inr res, w)"
      and m: "\<forall>n. map_of res n =
                 (if n \<in> name ` set repos then Some (False, Some ''Already exists'')
                  else map_of [] n)"
      using sequential_loop_all_exist [OF ex] by blast
    have "clone_all_repositories git sched repos org_name base_dir parallel max_workers dry_run w
            = (Inr res, w)"
      using False seq loop mk by (simp add: clone_all_repositories_def)
    then show ?thesis using m by (auto simp: dict_get_def)
  next
    case par: True
    let ?futs = "map (\<lambda>d. (d, Inr (name d, False, Some ''Already exists''))) repos"
    let ?res = "collect (pick_order (yield_choices sched) ?futs) []"
    have t: "run_pool git org_name base_dir dry_run (run_choices sched) repos w = (?futs, w)"
      using ex by (rule run_pool_all_exist)
    have run: "clone_all_repositories git sched repos org_name base_dir parallel max_workers dry_run w
            = (Inr ?res, w)"
      using False par pool t mk by (auto simp: clone_all_repositories_def split: option.splits)
    have all: "\<forall>f \<in> set (pick_order (yield_choices sched) ?futs).
                 snd f = Inr (name (fst f), False, Some ''Already exists'')"
      by (auto simp: set_pick_order)
    have "\<forall>d \<in> set repos. dict_get ?res (name d) = Some (False, Some ''Already exists'')"
    proof
      fix d assume d: "d \<in> set repos"
      have "name d \<in> (\<lambda>f. name (fst f)) ` set (pick_order (yield_choices sched) ?futs)"
        using d by (force simp: set_pick_order)
      then show "dict_get ?res (name d) = Some (False, Some ''Already exists'')"
        using collect_all_skipped [OF all, of "[]" "name d"] by (simp add: dict_get_def)
    qed
    then show ?thesis using run by blast
  qed
qed

text \<open>
  C7. Run the batch once, not as a dry run, with a \<open>git\<close> that behaves, and let the
  mapping it returns hold \<open>(True, None)\<close> for every repository of the list: every clone
  succeeded, so every target path exists. A second run over the same repositories,
  organisation and base directory, from the world the first run left, in the loop or
  in the pool (with a valid number of workers), as a dry run or not, with any \<open>git\<close> and
  any behaviour of the pool, returns a mapping that holds \<open>(False, "Already exists")\<close>
  for every repository, and leaves the world as it found it.
\<close>

theorem second_run_skips_everything:
  assumes wb: "well_behaved git"
    and first: "clone_all_repositories git sched repos org_name base_dir parallel max_workers False w
                  = (Inr res1, w1)"
    and succ: "\<forall>d \<in> set repos. dict_get res1 (name d) = Some (True, None)"
    and pool: "parallel2 \<longrightarrow> (\<forall>n. max_workers2 = Some n \<longrightarrow> 0 < n)"
  shows "\<exists>res2. clone_all_repositories git2 sched2 repos org_name base_dir parallel2 max_workers2
                   dry_run2 w1 = (Inr res2, w1)
              \<and> (\<forall>d \<in> set repos. dict_get res2 (name d) = Some (False, Some ''Already exists''))"
proof (cases "repos = []")
  case True
  then show ?thesis by (simp add: clone_all_repositories_def)
next
  case False
  have st: "recorded_ok base_dir org_name res1 (files w1)
         \<and> dirs_made (base_dir @ [org_name]) (files w1)"
    using first_run_state [OF wb first False] .
  have "\<forall>d \<in> set repos. path_exists (files w1) (target_path base_dir org_name d)"
    using st succ by (auto simp: recorded_ok_def dict_get_def path_exists_def target_path_def)
  from rerun_all_skipped [OF this _ pool] st show ?thesis by blast
qed

theorem second_run_skips_everything_witness:
  "fst (clone_all_repositories git_ok in_order [repoA, repoB] ''acme'' [''srv'']
          False None False empty_world) = Inr [(''repoA'', True, None), (''repoB'', True, None)]
   \<and> (\<exists>res2. clone_all_repositories git_fails last_first [repoA, repoB] ''acme'' [''srv'']
                 True (Some 2) False
                 (snd (clone_all_repositories git_ok in_order [repoA, repoB] ''acme'' [''srv'']
                         False None False empty_world))
               = (Inr res2, snd (clone_all_repositories git_ok in_order [repoA, repoB] ''acme''
                                   [''srv''] False None False empty_world))
            \<and> dict_get res2 ''repoA'' = Some (False, Some ''Already exists'')
            \<and> dict_get res2 ''repoB'' = Some (False, Some ''Already exists''))"
proof -
  let ?first = "clone_all_repositories git_ok in_order [repoA, repoB] ''acme'' [''srv'']
                  False None False empty_world"
  have wb: "well_behaved git_ok"
    by (auto simp: well_behaved_def git_ok_def extends_def)
  have res: "fst ?first = Inr [(''repoA'', True, None), (''repoB'', True, None)]"
    by (simp add: model_defs git_ok_def repoA_def repoB_def empty_world_def in_order_def)
  then have first: "?first = (Inr [(''repoA'', True, None), (''repoB'', True, None)], snd ?first)"
    by (simp add: prod_eq_iff)
  have succ: "\<forall>d \<in> set [repoA, repoB].
         dict_get [(''repoA'', True, None), (''repoB'', True, None)] (name d) = Some (True, None)"
    by (simp add: dict_get_def repoA_def repoB_def)
  have pool: "True \<longrightarrow> (\<forall>n. Some (2::int) = Some n \<longrightarrow> 0 < n)" by simp
  have "\<exists>res2. clone_all_repositories git_fails last_first [repoA, repoB] ''acme'' [''srv'']
                 True (Some 2) False (snd ?first) = (Inr res2, snd ?first)
            \<and> (\<forall>d \<in> set [repoA, repoB].
                  dict_get res2 (name d) = Some (False, Some ''Already exists''))"
    using second_run_skips_everything [where git = git_ok and ?git2.0 = git_fails
        and ?sched2.0 = last_first and ?dry_run2.0 = False, OF wb first succ pool] .
  then show ?thesis using res by (simp add: repoA_def repoB_def)
qed

subsection \<open>Keys of the returned mapping\<close>

lemma sequential_loop_distinct:
  "sequential_loop git org_name base_dir dry_run repos rn res w = (Inr res', w')
     \<Longrightarrow> distinct (map fst res) \<Longrightarrow> distinct (map fst res')"
proof (induction repos arbitrary: rn res w)
  case Nil
  then show ?case by simp
next
  case (Cons repo rest)
  obtain r w1 where c: "clone_repository git repo org_name base_dir dry_run w = (r, w1)"
    by (cases "clone_repository git repo org_name base_dir dry_run w")
  show ?case
  proof (cases r)
    case (Inr out)
    obtain n s d where out: "out = (n, s, d)" by (cases out)
    have "sequential_loop git org_name base_dir dry_run rest (Some n)
            (dict_set res n (s, d)) w1 = (Inr res', w')"
      using Cons.prems(1) c Inr out by simp
    from Cons.IH [OF this distinct_dict_set [OF Cons.prems(2)]] show ?thesis .
  next
    case (Inl e)
    show ?thesis
    proof (cases rn)
      case None
      then show ?thesis using Cons.prems(1) c Inl by simp
    next
      case (Some k)
      have "sequential_loop git org_name base_dir dry_run rest (Some k)
              (dict_set res k (False, Some (str_exn e))) w1 = (Inr res', w')"
        using Cons.prems(1) c Inl Some by simp
      from Cons.IH [OF this distinct_dict_set [OF Cons.prems(2)]] show ?thesis .
    qed
  qed
qed

lemma collect_distinct: "distinct (map fst res) \<Longrightarrow> distinct (map fst (collect futs res))"
  by (induction futs res rule: collect.induct) (simp_all add: distinct_dict_set)

lemma collect_append: "collect (xs @ ys) res = collect ys (collect xs res)"
  by (induction xs res rule: collect.induct) simp_all

lemma clone_all_distinct_keys:
  assumes "fst (clone_all_repositories git sched repos org_name base_dir parallel max_workers
                  dry_run w) = Inr res"
  shows "distinct (map fst res)"
proof (cases parallel)
  case True
  then have "res = [] \<or> (\<exists>futs. res = collect futs [])"
    using assms
    by (auto simp: clone_all_repositories_def Let_def
             split: if_splits sum.splits option.splits prod.splits)
  then show ?thesis using collect_distinct [of "[]"] by auto
next
  case False
  then have "res = [] \<or> (\<exists>w1 w'. sequential_loop git org_name base_dir dry_run repos None [] w1
                                    = (Inr res, w'))"
    using assms
    by (auto simp: clone_all_repositories_def Let_def prod_eq_iff
             split: if_splits sum.splits)
  then show ?thesis using sequential_loop_distinct [of git org_name base_dir dry_run repos None "[]"]
    by auto
qed

lemma collect_keys:
  "\<forall>f \<in> set futs. \<forall>n s d. snd f = Inr (n, s, d) \<longrightarrow> n = name (fst f)
     \<Longrightarrow> fst ` set (collect futs res) = fst ` set res \<union> (\<lambda>f. name (fst f)) ` set futs"
proof (induction futs res rule: collect.induct)
  case (1 res)
  then show ?case by simp
next
  case (2 repo rn success error fs res)
  then have "rn = name repo" by simp
  then show ?case using 2 by (auto simp: keys_dict_set)
next
  case (3 repo e fs res)
  then show ?case by (auto simp: keys_dict_set)
qed

lemma step_task_keyed:
  "keyed t \<Longrightarrow> keyed (fst (step_task git org_name base_dir dry_run t w))
     \<and> repo_of (fst (step_task git org_name base_dir dry_run t w)) = repo_of t"
proof (cases t)
  case (Ready repo)
  then show ?thesis
    using run_git_name [of git repo org_name base_dir w]
    by (auto simp: keyed_def case_prod_beta)
qed (auto simp: keyed_def split: sum.splits)

lemma finish_task_keyed:
  assumes "keyed t"
  shows "fst (fst (finish_task git org_name base_dir dry_run t w)) = repo_of t
     \<and> (\<forall>n s d. snd (fst (finish_task git org_name base_dir dry_run t w)) = Inr (n, s, d)
           \<longrightarrow> n = name (repo_of t))"
proof (cases t)
  case (Submitted repo)
  then show ?thesis
    using clone_repository_name [of git repo org_name base_dir dry_run w]
    by (auto simp: case_prod_beta)
next
  case (Checked repo)
  then show ?thesis
    using run_git_name [of git repo org_name base_dir]
    by (auto simp: case_prod_beta split: sum.splits)
next
  case (Ready repo)
  then show ?thesis
    using run_git_name [of git repo org_name base_dir w]
    by (auto simp: case_prod_beta)
next
  case (Done repo r)
  then show ?thesis using assms by (auto simp: keyed_def)
qed

lemma pool_steps_keyed:
  "\<forall>t \<in> set ts. keyed t \<Longrightarrow>
     map repo_of (fst (pool_steps git org_name base_dir dry_run cs ts w)) = map repo_of ts
     \<and> (\<forall>t \<in> set (fst (pool_steps git org_name base_dir dry_run cs ts w)). keyed t)"
proof (induction cs arbitrary: ts w)
  case Nil
  then show ?case by simp
next
  case (Cons c cs)
  show ?case
  proof (cases "ts = []")
    case True
    then show ?thesis by simp
  next
    case False
    let ?i = "c mod length ts"
    let ?st = "step_task git org_name base_dir dry_run (ts ! ?i) w"
    have "keyed (ts ! ?i)" using Cons.prems False by simp
    from step_task_keyed [OF this]
    have k: "keyed (fst ?st)" and r: "repo_of (fst ?st) = repo_of (ts ! ?i)" by simp_all
    from Cons.prems k have "\<forall>t \<in> set (ts[?i := fst ?st]). keyed t" by (rule all_update)
    moreover have "(map repo_of ts)[?i := repo_of (ts ! ?i)] = map repo_of ts"
      by (simp add: map_update [symmetric])
    ultimately show ?thesis
      using Cons.IH [of "ts[?i := fst ?st]" "snd ?st"] False r
      by (simp add: case_prod_beta map_update)
  qed
qed

lemma drain_keyed:
  "\<forall>t \<in> set ts. keyed t \<Longrightarrow>
     map fst (fst (drain git org_name base_dir dry_run ts w)) = map repo_of ts
     \<and> (\<forall>f \<in> set (fst (drain git org_name base_dir dry_run ts w)). \<forall>n s d.
           snd f = Inr (n, s, d) \<longrightarrow> n = name (fst f))"
proof (induction ts arbitrary: w)
  case Nil
  then show ?case by simp
next
  case (Cons t ts)
  have "keyed t" using Cons.prems by simp
  from finish_task_keyed [OF this, of git org_name base_dir dry_run w]
  have h: "fst (fst (finish_task git org_name base_dir dry_run t w)) = repo_of t"
    and k: "\<forall>n s d. snd (fst (finish_task git org_name base_dir dry_run t w)) = Inr (n, s, d)
           \<longrightarrow> n = name (repo_of t)" by simp_all
  have "\<forall>t \<in> set ts. keyed t" using Cons.prems by simp
  from Cons.IH [OF this] show ?case
    using h k by (simp add: case_prod_beta)
qed

lemma run_pool_futures:
  "run_pool git org_name base_dir dry_run choices repos w = (futs, w')
     \<Longrightarrow> map fst futs = repos
         \<and> (\<forall>f \<in> set futs. \<forall>n s d. snd f = Inr (n, s, d) \<longrightarrow> n = name (fst f))"
proof -
  assume run: "run_pool git org_name base_dir dry_run choices repos w = (futs, w')"
  let ?ps = "pool_steps git org_name base_dir dry_run choices (map Submitted repos) w"
  have "\<forall>t \<in> set (map Submitted repos). keyed t" by (simp add: keyed_def)
  from pool_steps_keyed [OF this, of git org_name base_dir dry_run choices w]
  have r: "map repo_of (fst ?ps) = repos" and k: "\<forall>t \<in> set (fst ?ps). keyed t"
    by (simp_all add: comp_def)
  have d: "drain git org_name base_dir dry_run (fst ?ps) (snd ?ps) = (futs, w')"
    using run by (simp add: run_pool_def case_prod_beta)
  from drain_keyed [OF k, of git org_name base_dir dry_run "snd ?ps"] d r show ?thesis
    by simp
qed

text \<open>
  The pool keeps one entry for each repository: the keys of its mapping are the names of
  the list, and with distinct names there are as many entries as repositories, whatever
  the calls return or raise.
\<close>

lemma parallel_one_entry_each:
  assumes run: "fst (clone_all_repositories git sched repos org_name base_dir True max_workers
                       dry_run w) = Inr res"
  shows "distinct (map fst res) \<and> fst ` set res = name ` set repos
         \<and> (distinct (map name repos) \<longrightarrow> length res = length repos)"
proof -
  have d: "distinct (map fst res)"
    using clone_all_distinct_keys [OF run] .
  have k: "fst ` set res = name ` set repos"
  proof (cases "repos = []")
    case True
    then show ?thesis using run by (simp add: clone_all_repositories_def)
  next
    case False
    obtain w1 futs w' where t: "run_pool git org_name base_dir dry_run (run_choices sched)
                                  repos w1 = (futs, w')"
      and res: "res = collect (pick_order (yield_choices sched) futs) []"
      using run False
      by (auto simp: clone_all_repositories_def Let_def
               split: if_splits sum.splits option.splits prod.splits)
    have f: "map fst futs = repos
         \<and> (\<forall>f \<in> set futs. \<forall>n s d. snd f = Inr (n, s, d) \<longrightarrow> n = name (fst f))"
      using run_pool_futures [OF t] .
    then have "\<forall>f \<in> set (pick_order (yield_choices sched) futs).
                 \<forall>n s d. snd f = Inr (n, s, d) \<longrightarrow> n = name (fst f)"
      by (simp add: set_pick_order)
    from collect_keys [OF this, of "[]"]
    have "fst ` set res = (\<lambda>f. name (fst f)) ` set futs"
      using res by (simp add: set_pick_order)
    also have "\<dots> = name ` set (map fst futs)" by (simp add: image_image)
    also have "\<dots> = name ` set repos" using f by simp
    finally show ?thesis .
  qed
  have "distinct (map name repos) \<longrightarrow> length res = length repos"
  proof
    assume dn: "distinct (map name repos)"
    have "length res = card (set (map fst res))"
      using distinct_card [OF d] by simp
    also have "\<dots> = card (set (map name repos))" using k by simp
    also have "\<dots> = length repos" using distinct_card [OF dn] by simp
    finally show "length res = length repos" .
  qed
  then show ?thesis using d k by blast
qed

text \<open>
  Repositories that share a name share a target path and a key. When both calls return,
  one entry is left: in the loop the outcome of the second call; in the pool the outcome
  handed back last. When the two calls of the pool both do their existence test before
  either runs \<open>git\<close>, \<open>git\<close> is started twice and the second start fails on the
  directory the first has made.
\<close>

lemma shared_name_examples:
  "fst (clone_all_repositories git_ok in_order [repoA, repoA] ''acme'' [''srv'']
          False None False empty_world) = Inr [(''repoA'', False, Some ''Already exists'')]
   \<and> fst (clone_all_repositories git_ok in_order [repoA, repoA] ''acme'' [''srv'']
          True None False empty_world) = Inr [(''repoA'', False, Some ''Already exists'')]
   \<and> fst (clone_all_repositories git_ok last_first [repoA, repoA] ''acme'' [''srv'']
          True None False empty_world) = Inr [(''repoA'', True, None)]
   \<and> fst (clone_all_repositories git_ok both_test_first [repoA, repoA] ''acme'' [''srv'']
          True (Some 2) False empty_world)
       = Inr [(''repoA'', False,
               Some ''Failed to clone repoA: fatal: destination path already exists'')]
   \<and> length (calls (snd (clone_all_repositories git_ok both_test_first [repoA, repoA] ''acme''
          [''srv''] True (Some 2) False empty_world))) = 2"
  by (simp add: model_defs run_git_def git_ok_def repoA_def empty_world_def in_order_def
        last_first_def both_test_first_def)

text \<open>
  C9. The claim: when descriptors share a name, the mapping returned has a single entry
  for that name, the outcome recorded last. The pool does that. The loop does not when
  a call raises, by the handler of line 168: for \<open>repoA\<close>, \<open>repoB\<close>, \<open>repoB\<close>, with
  \<open>subprocess.run\<close> raising for \<open>repoB\<close>, both failures are stored under \<open>repoA\<close> and the
  repeated name \<open>repoB\<close> has no entry; for \<open>repoB\<close>, \<open>repoB\<close> no mapping is returned at
  all, the batch ends with \<open>UnboundLocalError\<close>.
\<close>

theorem repeated_name_loses_its_entry:
  "fst (clone_all_repositories git_breaks_on_B in_order [repoA, repoB, repoB] ''acme'' [''srv'']
          False None False empty_world)
     = Inr [(''repoA'', False, Some ''[Errno 24] Too many open files'')]
   \<and> fst (clone_all_repositories git_breaks_on_B in_order [repoB, repoB] ''acme'' [''srv'']
          False None False empty_world)
     = Inl (UnboundLocalError ''repo_name'')
   \<and> fst (clone_all_repositories git_breaks_on_B in_order [repoA, repoB, repoB] ''acme'' [''srv'']
          True None False empty_world)
     = Inr [(''repoA'', True, None), (''repoB'', False, Some ''[Errno 24] Too many open files'')]"
  by (simp add: model_defs git_breaks_on_B_def repoA_def repoB_def empty_world_def in_order_def)

end
